theory Spec2Isabelle
  imports Main "HOL-Library.Word"
begin

unbundle bit_operations_syntax

section \<open>Buffers, positions and parse results\<close>

text \<open>
  The parser of \<^verbatim>\<open>src/dsmr/parser.h\<close> works on a character buffer through pointers.
  A buffer is a \<open>string\<close>; a pointer into it is the offset (a \<open>nat\<close>) of the
  character it points at, and a pointer that may be \<^verbatim>\<open>NULL\<close> is a \<open>nat option\<close>.
  Every read \<^verbatim>\<open>*p\<close> of the source is guarded by \<^verbatim>\<open>p < end\<close>; the theorems that
  relate the loops to list functions assume that \<open>end\<close> lies inside the buffer.
\<close>

type_synonym u8 = "8 word"
type_synonym u16 = "16 word"

definition byte :: "char \<Rightarrow> u8" where
  "byte c = of_char c"

definition CR :: char where
  "CR = CHR 0x0D"

definition LF :: char where
  "LF = CHR 0x0A"

text \<open>
  Modelled from the spec: \<^verbatim>\<open>util.h\<close>, which declares \<^verbatim>\<open>ParseResult\<close>, is not among
  the sources. The record has the members \<^verbatim>\<open>parser.h\<close> reads and writes
  (\<^verbatim>\<open>result\<close>, \<^verbatim>\<open>next\<close>, \<^verbatim>\<open>err\<close>) and the context position that the second argument
  of \<^verbatim>\<open>fail\<close> sets: the spec's error is a message with a position, and \<open>next\<close> is the
  first unconsumed byte. A default-constructed result has no error, no context and no
  next position. \<^verbatim>\<open>ParseResult<void>\<close> is \<open>unit ParseResult\<close>.
\<close>

record 'a ParseResult =
  result :: 'a
  "next" :: "nat option"
  err :: "string option"
  ctx :: "nat option"

definition ParseResult :: "'a \<Rightarrow> 'a ParseResult" where
  "ParseResult r = \<lparr>result = r, next = None, err = None, ctx = None\<rparr>"

definition fail :: "'a ParseResult \<Rightarrow> string \<Rightarrow> nat option \<Rightarrow> 'a ParseResult" where
  "fail res msg c = res\<lparr>err := Some msg, ctx := c\<rparr>"

definition until :: "'a ParseResult \<Rightarrow> nat \<Rightarrow> 'a ParseResult" where
  "until res p = res\<lparr>next := Some p\<rparr>"

definition succeed :: "'a ParseResult \<Rightarrow> 'a \<Rightarrow> 'a ParseResult" where
  "succeed res r = res\<lparr>result := r\<rparr>"

text \<open>The converting constructor: \<^verbatim>\<open>return idres;\<close> from a function that returns
  \<^verbatim>\<open>ParseResult<void>\<close> keeps \<open>next\<close>, \<open>err\<close> and \<open>ctx\<close> and drops the value.\<close>

definition to_void :: "'a ParseResult \<Rightarrow> unit ParseResult" where
  "to_void res = \<lparr>result = (), next = next res, err = err res, ctx = ctx res\<rparr>"

section \<open>ObisId and ObisIdParser\<close>

text \<open>
  Modelled from the spec: \<^verbatim>\<open>ObisId\<close> (also of \<^verbatim>\<open>util.h\<close>) is six bytes \<^verbatim>\<open>v[6]\<close>,
  compared component-wise; the default-constructed id, on which \<^verbatim>\<open>ObisIdParser::parse\<close>
  accumulates, is all zeroes.
\<close>

record ObisId =
  v :: "u8 list"

definition ObisId :: "u8 \<Rightarrow> u8 \<Rightarrow> u8 \<Rightarrow> u8 \<Rightarrow> u8 \<Rightarrow> u8 \<Rightarrow> ObisId" where
  "ObisId a b c d e f = \<lparr>v = [a, b, c, d, e, f]\<rparr>"

definition ObisId_zero :: ObisId where
  "ObisId_zero = ObisId 0 0 0 0 0 0"

definition is_digit :: "char \<Rightarrow> bool" where
  "is_digit c = (of_char (CHR ''0'') \<le> (of_char c :: nat) \<and> (of_char c :: nat) \<le> of_char (CHR ''9''))"

definition digit_of :: "char \<Rightarrow> u8" where
  "digit_of c = byte c - byte (CHR ''0'')"

text \<open>
  The \<^verbatim>\<open>while (res.next < end)\<close> loop of \<^verbatim>\<open>ObisIdParser::parse\<close>. Its state is
  \<^verbatim>\<open>res.next\<close>, \<^verbatim>\<open>part\<close> and the components \<^verbatim>\<open>id.v\<close>. \<open>Inl\<close> is the
  \<^verbatim>\<open>return res.fail(...)\<close> from inside the loop, with the state at that moment;
  \<open>Inr\<close> is the state when the loop is left by its condition or by \<^verbatim>\<open>break\<close>.
\<close>

type_synonym obis_state = "nat \<times> nat \<times> u8 list"

function obis_scan :: "string \<Rightarrow> nat \<Rightarrow> nat \<Rightarrow> nat \<Rightarrow> u8 list \<Rightarrow> obis_state + obis_state" where
  "obis_scan buf end nxt part w =
     (if nxt < end then
        (let c = buf ! nxt in
         if is_digit c then
           (let digit = digit_of c in
            if w ! part > 25 \<or> (w ! part = 25 \<and> digit > 5) then Inl (nxt, part, w)
            else obis_scan buf end (Suc nxt) part (w[part := w ! part * 10 + digit]))
         else if part = 0 \<and> c = CHR ''-'' then obis_scan buf end (Suc nxt) (Suc part) w
         else if part = 1 \<and> c = CHR '':'' then obis_scan buf end (Suc nxt) (Suc part) w
         else if part > 1 \<and> part < 5 \<and> c = CHR ''.'' then obis_scan buf end (Suc nxt) (Suc part) w
         else Inr (nxt, part, w))
      else Inr (nxt, part, w))"
  by pat_completeness auto
termination
  by (relation "measure (\<lambda>(buf, end, nxt, part, w). end - nxt)") auto

declare obis_scan.simps [simp del]

text \<open>\<^verbatim>\<open>for (++part; part < 6; ++part) id.v[part] = 255;\<close>\<close>

function fill_255 :: "nat \<Rightarrow> u8 list \<Rightarrow> u8 list" where
  "fill_255 part w = (if part < 6 then fill_255 (Suc part) (w[part := 255]) else w)"
  by pat_completeness auto
termination
  by (relation "measure (\<lambda>(part, w). 6 - part)") auto

declare fill_255.simps [simp del]

definition ObisIdParser_parse :: "string \<Rightarrow> nat \<Rightarrow> nat \<Rightarrow> ObisId ParseResult" where
  "ObisIdParser_parse buf str end =
     (case obis_scan buf end str 0 (v ObisId_zero) of
        Inl (nxt, part, w) \<Rightarrow>
          fail (until (ParseResult \<lparr>v = w\<rparr>) nxt) ''Obis ID has number over 255'' (Some str)
      | Inr (nxt, part, w) \<Rightarrow>
          if nxt = str then fail (until (ParseResult \<lparr>v = w\<rparr>) nxt) ''OBIS id Empty'' (Some str)
          else until (ParseResult \<lparr>v = fill_255 (Suc part) w\<rparr>) nxt)"

text \<open>The conditions of the three \<^verbatim>\<open>else if\<close> branches of the loop, under which a
  character that is no digit is consumed and \<^verbatim>\<open>part\<close> incremented.\<close>

definition sep_ok :: "nat \<Rightarrow> char \<Rightarrow> bool" where
  "sep_ok part c = (part = 0 \<and> c = CHR ''-'' \<or> part = 1 \<and> c = CHR '':'' \<or>
                    1 < part \<and> part < 5 \<and> c = CHR ''.'')"

section \<open>CrcParser\<close>

text \<open>
  \<^verbatim>\<open>CrcParser::parse\<close> copies four bytes into a nul-terminated buffer and hands them to
  the C library's \<^verbatim>\<open>strtoul(buf, &endp, 16)\<close>. That function is specified by ISO C
  (7.22.1.4): it skips leading white space (\<^verbatim>\<open>isspace\<close>), accepts one optional sign,
  accepts an optional \<^verbatim>\<open>0x\<close> or \<^verbatim>\<open>0X\<close> prefix when the base is 16, then reads the
  longest run of hexadecimal digits; \<^verbatim>\<open>endp\<close> is set one past the last character read,
  or to the start when no digit was read; with a minus sign the value is negated in
  the return type. \<open>strtoul_hex\<close> returns the value and the offset of \<^verbatim>\<open>endp\<close>. The
  buffer holds at most four characters, so the value never reaches the range where
  \<^verbatim>\<open>strtoul\<close> would saturate. A nul byte among the four ends the C string; it is no
  white space, sign or digit, so the scan stops there without a special case.
\<close>

definition is_space :: "char \<Rightarrow> bool" where
  "is_space c = ((of_char c :: nat) = 32 \<or> (9 \<le> (of_char c :: nat) \<and> (of_char c :: nat) \<le> 13))"

definition hex_val :: "char \<Rightarrow> nat option" where
  "hex_val c =
     (let n = (of_char c :: nat) in
      if 48 \<le> n \<and> n \<le> 57 then Some (n - 48)
      else if 97 \<le> n \<and> n \<le> 102 then Some (n - 87)
      else if 65 \<le> n \<and> n \<le> 70 then Some (n - 55)
      else None)"

definition is_hex :: "char \<Rightarrow> bool" where
  "is_hex c = (hex_val c \<noteq> None)"

fun hex_acc :: "nat \<Rightarrow> string \<Rightarrow> nat" where
  "hex_acc a [] = a"
| "hex_acc a (c # cs) = hex_acc (a * 16 + the (hex_val c)) cs"

definition strtoul_hex :: "string \<Rightarrow> 32 word \<times> nat" where
  "strtoul_hex s =
     (let i = length (takeWhile is_space s);
          neg = (case drop i s of c # _ \<Rightarrow> c = CHR ''-'' | [] \<Rightarrow> False);
          j = (case drop i s of c # _ \<Rightarrow> if c = CHR ''-'' \<or> c = CHR ''+'' then Suc i else i | [] \<Rightarrow> i);
          k = (case drop j s of
                 z # x # h # _ \<Rightarrow>
                   if z = CHR ''0'' \<and> (x = CHR ''x'' \<or> x = CHR ''X'') \<and> is_hex h then j + 2 else j
               | _ \<Rightarrow> j);
          ds = takeWhile is_hex (drop k s)
      in if ds = [] then (0, 0)
         else ((if neg then - of_nat (hex_acc 0 ds) else of_nat (hex_acc 0 ds)), k + length ds))"

definition CRC_LEN :: nat where
  "CRC_LEN = 4"

text \<open>A \<^verbatim>\<open>ParseResult<uint16_t>\<close> is created without a value; the model starts it at 0.
  No caller reads the value of a failed result.\<close>

definition CrcParser_parse :: "string \<Rightarrow> nat \<Rightarrow> nat \<Rightarrow> u16 ParseResult" where
  "CrcParser_parse buf str end =
     (let res = ParseResult 0 in
      if str + CRC_LEN > end then fail res ''No checksum found'' (Some str)
      else
        (let (check, endp) = strtoul_hex (take CRC_LEN (drop str buf)) in
         if endp \<noteq> CRC_LEN then fail res ''Incomplete or malformed checksum'' (Some str)
         else succeed (res\<lparr>next := Some (str + CRC_LEN)\<rparr>) (ucast check)))"

section \<open>StringParser\<close>

text \<open>
  Modelled from the spec: \<^verbatim>\<open>concat_hack\<close> (of \<^verbatim>\<open>util.h\<close>, not among the sources)
  appends the \<open>len\<close> payload bytes that start at \<open>from\<close> to the string, verbatim.
\<close>

definition concat_hack :: "string \<Rightarrow> string \<Rightarrow> nat \<Rightarrow> nat \<Rightarrow> string" where
  "concat_hack s buf from len = s @ take len (drop from buf)"

text \<open>\<^verbatim>\<open>while(str_end < end && *str_end != ')') ++str_end;\<close>\<close>

function find_close :: "string \<Rightarrow> nat \<Rightarrow> nat \<Rightarrow> nat" where
  "find_close buf end str_end =
     (if str_end < end \<and> buf ! str_end \<noteq> CHR '')'' then find_close buf end (Suc str_end)
      else str_end)"
  by pat_completeness auto
termination
  by (relation "measure (\<lambda>(buf, end, str_end). end - str_end)") auto

declare find_close.simps [simp del]

definition parse_string :: "nat \<Rightarrow> nat \<Rightarrow> string \<Rightarrow> nat \<Rightarrow> nat \<Rightarrow> string ParseResult" where
  "parse_string min_len max_len buf str end =
     (let res = ParseResult [] in
      if str \<ge> end \<or> buf ! str \<noteq> CHR ''(''  then fail res ''Missing ('' (Some str)
      else
        (let str_start = str + 1;
             str_end = find_close buf end str_start in
         if str_end = end then fail res ''Missing )'' (Some str)
         else
           (let len = str_end - str_start in
            if len < min_len \<or> len > max_len then fail res ''Invalid string length'' (Some str)
            else until (res\<lparr>result := concat_hack (result res) buf str_start len\<rparr>) (str_end + 1))))"

section \<open>The field registry\<close>

text \<open>
  \<^verbatim>\<open>ParsedData<Ts...>\<close> is the list of the caller's field classes; the object
  \<^verbatim>\<open>*data\<close> holds their slots. A field class \<open>T\<close> is its id \<^verbatim>\<open>T::id\<close> and its
  \<^verbatim>\<open>T::parse(str, end)\<close>, which reads the buffer and may write the slots: the slots
  are a state \<open>'s\<close> that is passed in and returned. The field classes themselves
  (\<^verbatim>\<open>fields.h\<close>) are not among the sources, so they are parameters here.
\<close>

record 's field =
  fid :: ObisId
  fparse :: "string \<Rightarrow> nat \<Rightarrow> nat \<Rightarrow> 's \<Rightarrow> unit ParseResult \<times> 's"

fun ParsedData_parse_line ::
  "'s field list \<Rightarrow> ObisId \<Rightarrow> string \<Rightarrow> nat \<Rightarrow> nat \<Rightarrow> 's \<Rightarrow> unit ParseResult \<times> 's" where
  "ParsedData_parse_line [] oid buf str end s = (until (ParseResult ()) str, s)"
| "ParsedData_parse_line (T # Ts) oid buf str end s =
     (if oid = fid T then fparse T buf str end s
      else ParsedData_parse_line Ts oid buf str end s)"

text \<open>
  Modelled from the spec: a field whose value is the text of a \<open>(payload)\<close> envelope
  (\<^verbatim>\<open>fields.h\<close> is not among the sources). Its decode routine is
  \<open>parse_string\<close> with the field's length bounds; when that succeeds the payload is
  stored in the field's slot, and the result is returned either way. The slots of a
  registry of such fields are a map from the field's name to its stored text.
\<close>

definition string_field :: "string \<Rightarrow> ObisId \<Rightarrow> nat \<Rightarrow> nat \<Rightarrow> (string \<rightharpoonup> string) field" where
  "string_field name oid min_len max_len =
     \<lparr>fid = oid,
      fparse = (\<lambda>buf str end s.
        (let res = parse_string min_len max_len buf str end in
         if err res = None then (to_void res, s(name \<mapsto> result res)) else (to_void res, s)))\<rparr>"

section \<open>P1Parser\<close>

text \<open>
  Modelled from the spec: \<^verbatim>\<open>_crc16_update\<close> comes from \<^verbatim>\<open><util/crc16.h>\<close>, which is
  not among the sources; it is the CRC-16/IBM update that folds one byte into the
  running value: exclusive-or the byte into the low bits, then eight times shift right
  by one and exclusive-or the reflected polynomial \<^verbatim>\<open>0xA001\<close> when the bit shifted
  out was set.
\<close>

definition crc16_bit :: "u16 \<Rightarrow> u16" where
  "crc16_bit crc = (if crc AND 1 \<noteq> 0 then drop_bit 1 crc XOR 0xA001 else drop_bit 1 crc)"

fun crc16_shift :: "nat \<Rightarrow> u16 \<Rightarrow> u16" where
  "crc16_shift 0 crc = crc"
| "crc16_shift (Suc i) crc = crc16_shift i (crc16_bit crc)"

definition crc16_update :: "u16 \<Rightarrow> u8 \<Rightarrow> u16" where
  "crc16_update crc a = crc16_shift 8 (crc XOR ucast a)"

text \<open>\<^verbatim>\<open>P1Parser::parse_line\<close>\<close>

definition P1Parser_parse_line ::
  "'s field list \<Rightarrow> string \<Rightarrow> nat \<Rightarrow> nat \<Rightarrow> 's \<Rightarrow> unit ParseResult \<times> 's" where
  "P1Parser_parse_line data buf line end s =
     (let res = ParseResult () in
      if line = end then (res, s)
      else
        (let idres = ObisIdParser_parse buf line end in
         if err idres \<noteq> None then (to_void idres, s)
         else
           (let (datares, s') = ParsedData_parse_line data (result idres) buf (the (next idres)) end s in
            if err datares \<noteq> None then (datares, s')
            else if next datares \<noteq> next idres \<and> next datares \<noteq> Some end
              then (fail res ''Trailing characters on data line'' (next datares), s')
            else (until res end, s'))))"

definition is_eol :: "char \<Rightarrow> bool" where
  "is_eol c = (c = CR \<or> c = LF)"

text \<open>
  The first loop of \<^verbatim>\<open>P1Parser::parse_data\<close> (``Parse ID line''), from \<open>line_end\<close> on;
  \<open>line_start\<close> is still \<open>str\<close>. \<open>Inl\<close> is a \<^verbatim>\<open>return\<close> from inside the loop;
  \<open>Inr\<close> is \<open>(line_start, line_end)\<close> when the loop is left.
\<close>

function id_line ::
  "'s field list \<Rightarrow> string \<Rightarrow> nat \<Rightarrow> nat \<Rightarrow> nat \<Rightarrow> 's \<Rightarrow> (unit ParseResult + nat \<times> nat) \<times> 's" where
  "id_line data buf end line_start line_end s =
     (if line_end < end then
        (if is_eol (buf ! line_end) then
           (if line_start + 3 \<ge> line_end \<or>
               (buf ! (line_start + 3) \<noteq> CHR ''5'' \<and> buf ! (line_start + 3) \<noteq> CHR ''3'')
            then (Inl (fail (ParseResult ()) ''Invalid identification string'' (Some line_start)), s)
            else
              (let (tmp, s') = ParsedData_parse_line data (ObisId 255 255 255 255 255 255)
                                  buf line_start line_end s in
               if err tmp \<noteq> None then (Inl tmp, s')
               else (Inr (Suc line_end, Suc line_end), s')))
         else id_line data buf end line_start (Suc line_end) s)
      else (Inr (line_start, line_end), s))"
  by pat_completeness auto
termination
  by (relation "measure (\<lambda>(data, buf, end, line_start, line_end, s). end - line_end)") auto

declare id_line.simps [simp del]

text \<open>The second loop (``Parse data lines'') and the check that follows it.\<close>

function data_lines ::
  "'s field list \<Rightarrow> string \<Rightarrow> nat \<Rightarrow> nat \<Rightarrow> nat \<Rightarrow> 's \<Rightarrow> unit ParseResult \<times> 's" where
  "data_lines data buf end line_start line_end s =
     (if line_end < end then
        (if is_eol (buf ! line_end) then
           (let (tmp, s') = P1Parser_parse_line data buf line_start line_end s in
            if err tmp \<noteq> None then (tmp, s')
            else data_lines data buf end (line_end + 1) (Suc line_end) s')
         else data_lines data buf end line_start (Suc line_end) s)
      else if line_end \<noteq> line_start
        then (fail (ParseResult ()) ''Last dataline not CRLF terminated'' (Some line_start), s)
      else (ParseResult (), s))"
  by pat_completeness auto
termination
  by (relation "measure (\<lambda>(data, buf, end, line_start, line_end, s). end - line_end)") auto

declare data_lines.simps [simp del]

definition parse_data ::
  "'s field list \<Rightarrow> string \<Rightarrow> nat \<Rightarrow> nat \<Rightarrow> 's \<Rightarrow> unit ParseResult \<times> 's" where
  "parse_data data buf str end s =
     (case id_line data buf end str str s of
        (Inl r, s') \<Rightarrow> (r, s')
      | (Inr (line_start, line_end), s') \<Rightarrow> data_lines data buf end line_start line_end s')"

text \<open>\<^verbatim>\<open>while (data_end < str + n && *data_end != '!')\<close>, the scan for the end of the
  data that accumulates the CRC. The buffer starts at offset 0 (\<^verbatim>\<open>str\<close>).\<close>

function crc_scan :: "string \<Rightarrow> nat \<Rightarrow> nat \<Rightarrow> u16 \<Rightarrow> nat \<times> u16" where
  "crc_scan buf n data_end crc =
     (if data_end < n \<and> buf ! data_end \<noteq> CHR ''!''
      then crc_scan buf n (Suc data_end) (crc16_update crc (byte (buf ! data_end)))
      else (data_end, crc))"
  by pat_completeness auto
termination
  by (relation "measure (\<lambda>(buf, n, data_end, crc). n - data_end)") auto

declare crc_scan.simps [simp del]

definition P1Parser_parse ::
  "'s field list \<Rightarrow> string \<Rightarrow> nat \<Rightarrow> 's \<Rightarrow> unit ParseResult \<times> 's" where
  "P1Parser_parse data buf n s =
     (let res = ParseResult () in
      if n = 0 \<or> buf ! 0 \<noteq> CHR ''/'' then (fail res ''Data should start with /'' (Some 0), s)
      else
        (let data_start = 1;
             (data_end, crc0) = crc_scan buf n data_start (crc16_update 0 (byte (buf ! 0))) in
         if data_end \<ge> n then (fail res ''No checksum found'' None, s)
         else
           (let crc = crc16_update crc0 (byte (buf ! data_end));
                check_res = CrcParser_parse buf (data_end + 1) n in
            if err check_res \<noteq> None then (to_void check_res, s)
            else if result check_res \<noteq> crc
              then (fail res ''Checksum mismatch'' (Some data_end), s)
            else
              (let (res', s') = parse_data data buf data_start data_end s in
               (res'\<lparr>next := next check_res\<rparr>, s')))))"

section \<open>What the scan of \<open>P1Parser_parse\<close> computes\<close>

text \<open>
  The two notions the claims about the checksum are stated with, written with list
  functions and independent of the loop \<open>crc_scan\<close>: the CRC16, seeded at 0, of a
  sequence of bytes, and the offset of the first \<open>!\<close> after the leading character
  among the first \<open>n\<close> bytes of the buffer (\<open>n\<close>, or more, when there is none).
\<close>

definition crc16_of :: "string \<Rightarrow> u16" where
  "crc16_of bs = foldl crc16_update 0 (map byte bs)"

definition first_bang :: "string \<Rightarrow> nat \<Rightarrow> nat" where
  "first_bang buf n = Suc (length (takeWhile (\<lambda>c. c \<noteq> CHR ''!'') (drop 1 (take n buf))))"

section \<open>Example buffers\<close>


text \<open>A well-formed telegram whose first data line carries an id, \<open>9-9:9.9.9\<close>, that
  no field of \<open>example_fields\<close> has.\<close>

definition telegram_unknown :: string where
  "telegram_unknown =
     ''/ISk5'' @ [CR, LF] @ ''9-9:9.9.9(50)'' @ [CR, LF] @ ''1-3:0.2.8(50)'' @ [CR, LF] @ ''!FCEF''"

definition example_fields :: "(string \<rightharpoonup> string) field list" where
  "example_fields =
     [string_field ''p1_version'' (ObisId 1 3 0 2 8 255) 0 10,
      string_field ''other'' (ObisId 1 3 0 2 9 255) 0 10]"

section \<open>Evaluation on concrete buffers\<close>

lemma crc16_shift_8:
  "crc16_shift 8 c =
     crc16_bit (crc16_bit (crc16_bit (crc16_bit (crc16_bit (crc16_bit (crc16_bit (crc16_bit c)))))))"
  by (simp add: eval_nat_numeral)

lemmas crc_eval = crc16_update_def crc16_shift_8 crc16_bit_def byte_def

lemmas res_eval = ParseResult_def fail_def until_def succeed_def to_void_def

lemmas obis_eval = ObisIdParser_parse_def obis_scan.simps fill_255.simps is_digit_def
  digit_of_def ObisId_zero_def ObisId_def

lemmas crcp_eval = CrcParser_parse_def strtoul_hex_def is_space_def hex_val_def is_hex_def
  CRC_LEN_def

lemmas str_eval = parse_string_def find_close.simps concat_hack_def string_field_def

lemmas p1_eval = P1Parser_parse_def crc_scan.simps parse_data_def id_line.simps
  data_lines.simps P1Parser_parse_line_def is_eol_def CR_def LF_def

section \<open>Loops as list functions\<close>

lemma drop_take_nth:
  "i < e \<Longrightarrow> e \<le> length buf \<Longrightarrow> drop i (take e buf) = buf ! i # drop (Suc i) (take e buf)"
  using Cons_nth_drop_Suc [of i "take e buf"] by simp

lemma takeWhile_full: "(length (takeWhile P xs) = length xs) = (\<forall>x\<in>set xs. P x)"
  by (induction xs) auto

lemma find_close_takeWhile:
  "e \<le> length buf \<Longrightarrow> i \<le> e \<Longrightarrow>
   find_close buf e i = i + length (takeWhile (\<lambda>c. c \<noteq> CHR '')'') (drop i (take e buf)))"
proof (induction buf e i rule: find_close.induct)
  case (1 buf e i)
  show ?case
  proof (cases "i < e")
    case True
    with "1.prems" have d: "drop i (take e buf) = buf ! i # drop (Suc i) (take e buf)"
      by (simp add: drop_take_nth)
    show ?thesis
    proof (cases "buf ! i = CHR '')''")
      case True
      with d show ?thesis by (simp add: find_close.simps)
    next
      case False
      with True "1.IH" "1.prems" d show ?thesis
        by (subst find_close.simps) simp
    qed
  next
    case False
    with "1.prems" show ?thesis by (simp add: find_close.simps)
  qed
qed

section \<open>StringParser\<close>

text \<open>
  C7. \<open>parse_string\<close> on a range inside the buffer fails with ``Missing (''
  when the range is empty or its first character is not \<open>(\<close>, with ``Missing )'' when no
  \<open>)\<close> occurs between the \<open>(\<close> and the end of the range, and with ``Invalid string
  length'' when the payload, the characters between \<open>(\<close> and the first \<open>)\<close>, is
  shorter than the minimum or longer than the maximum; every failure is positioned at
  the start of the range. Otherwise it succeeds: the value is the payload, unchanged,
  and the next position is one past the closing \<open>)\<close>.
\<close>

theorem parse_string_spec:
  assumes "e \<le> length buf"
  shows "parse_string min_len max_len buf str e =
    (let body = drop (Suc str) (take e buf);
         payload = takeWhile (\<lambda>c. c \<noteq> CHR '')'') body in
     if str \<ge> e \<or> buf ! str \<noteq> CHR ''('' then fail (ParseResult []) ''Missing ('' (Some str)
     else if CHR '')'' \<notin> set body then fail (ParseResult []) ''Missing )'' (Some str)
     else if length payload < min_len \<or> max_len < length payload
       then fail (ParseResult []) ''Invalid string length'' (Some str)
     else until (succeed (ParseResult []) payload) (str + length payload + 2))"
proof (cases "str \<ge> e \<or> buf ! str \<noteq> CHR ''(''")
  case True
  then show ?thesis by (simp add: parse_string_def Let_def)
next
  case False
  define body where "body = drop (Suc str) (take e buf)"
  define payload where "payload = takeWhile (\<lambda>c. c \<noteq> CHR '')'') body"
  from False have lt: "str < e" by simp
  with assms have fc: "find_close buf e (str + 1) = Suc str + length payload"
    using find_close_takeWhile [of e buf "Suc str"] by (simp add: body_def payload_def)
  have lb: "length body = e - Suc str"
    using assms by (simp add: body_def)
  have full: "(Suc str + length payload = e) = (CHR '')'' \<notin> set body)"
  proof -
    have "length payload \<le> length body" by (simp add: payload_def length_takeWhile_le)
    with lb lt have "(Suc str + length payload = e) = (length payload = length body)" by arith
    also have "\<dots> = (\<forall>x\<in>set body. x \<noteq> CHR '')'')"
      unfolding payload_def by (rule takeWhile_full)
    finally show ?thesis by auto
  qed
  have cp: "take (length payload) (drop (Suc str) buf) = payload"
  proof -
    have "body = take (e - Suc str) (drop (Suc str) buf)"
      by (simp add: body_def drop_take)
    moreover have "take (length payload) body = payload"
      unfolding payload_def by (simp add: takeWhile_eq_take [symmetric])
    moreover have "length payload \<le> e - Suc str"
      using lb by (simp add: payload_def length_takeWhile_le [where xs = body, simplified lb])
    ultimately show ?thesis by (simp add: min_def)
  qed
  from False fc full cp show ?thesis
    by (simp add: parse_string_def Let_def body_def [symmetric] payload_def [symmetric]
        concat_hack_def ParseResult_def succeed_def until_def fail_def)
qed

theorem parse_string_spec_witness:
  "(5::nat) \<le> length ''(50)X'' \<and>
   parse_string 0 10 ''(50)X'' 0 5 = until (succeed (ParseResult []) ''50'') 4"
  using parse_string_spec [of 5 "''(50)X''" 0 10 0] by (simp add: res_eval)

section \<open>CrcParser\<close>

text \<open>The parts of the checksum decoding that hold for every input: a range of
  fewer than four bytes gives ``No checksum found'', and four hexadecimal digits give
  their big-endian value with the cursor advanced by four.\<close>

lemma CrcParser_short:
  "e < str + 4 \<Longrightarrow> CrcParser_parse buf str e = fail (ParseResult 0) ''No checksum found'' (Some str)"
  by (simp add: CrcParser_parse_def CRC_LEN_def Let_def)

lemma is_hex_plain:
  "is_hex c \<Longrightarrow> \<not> is_space c \<and> c \<noteq> CHR ''-'' \<and> c \<noteq> CHR ''+'' \<and> c \<noteq> CHR ''x'' \<and> c \<noteq> CHR ''X''"
  by (auto simp: is_hex_def hex_val_def is_space_def Let_def split: if_splits)

lemma ucast_of_nat_32_16: "(ucast (of_nat n :: 32 word) :: 16 word) = of_nat n"
  by (simp add: unsigned_of_nat word_of_nat_eq_iff)

lemma strtoul_hex_four:
  assumes "is_hex a" "is_hex b" "is_hex c" "is_hex d"
  shows "strtoul_hex [a, b, c, d] = (of_nat (hex_acc 0 [a, b, c, d]), 4)"
  using assms is_hex_plain [of a] is_hex_plain [of b]
  by (simp add: strtoul_hex_def Let_def del: hex_acc.simps)

lemma CrcParser_hex:
  assumes "str + 4 \<le> e" "take 4 (drop str buf) = [a, b, c, d]"
    and "is_hex a" "is_hex b" "is_hex c" "is_hex d"
  shows "CrcParser_parse buf str e =
           \<lparr>result = of_nat (hex_acc 0 [a, b, c, d]), next = Some (str + 4), err = None, ctx = None\<rparr>"
  using assms(1,2) strtoul_hex_four [OF assms(3-6)]
  by (simp add: CrcParser_parse_def CRC_LEN_def Let_def res_eval ucast_of_nat_32_16
      del: hex_acc.simps)

text \<open>
  C3. The four bytes \<open>+123\<close> are not four hexadecimal digits, yet
  \<open>CrcParser_parse\<close> succeeds on them, with the value \<open>0x0123\<close> and the next
  position advanced by four: \<^verbatim>\<open>strtoul\<close> takes the sign as part of the number and
  its end pointer reaches the end of the copy.
\<close>

theorem CrcParser_accepts_sign:
  "CrcParser_parse ''+123'' 0 4 = \<lparr>result = 0x0123, next = Some 4, err = None, ctx = None\<rparr>"
  by (simp add: crcp_eval res_eval)

section \<open>Dispatch and data lines\<close>

lemma ParsedData_no_match:
  "oid \<notin> fid ` set data \<Longrightarrow>
   ParsedData_parse_line data oid buf str e s = (until (ParseResult ()) str, s)"
  by (induction data) auto

lemma ObisIdParser_next: "\<exists>p. next (ObisIdParser_parse buf str e) = Some p"
  by (auto simp: ObisIdParser_parse_def res_eval split: sum.splits prod.splits)

text \<open>
  C6. On a non-empty line whose id parses and whose dispatch returns without an error,
  \<open>P1Parser_parse_line\<close> succeeds, with the cursor at the end of the line, exactly
  when the dispatch left its cursor where the id ended (nothing consumed) or at the
  end of the line; with the cursor anywhere else it fails with ``Trailing characters
  on data line'', positioned at the dispatch's cursor, the first unconsumed character.
\<close>

theorem parse_line_trailing_check:
  assumes "line \<noteq> e"
    and "err (ObisIdParser_parse buf line e) = None"
    and "ParsedData_parse_line data (result (ObisIdParser_parse buf line e)) buf
           (the (next (ObisIdParser_parse buf line e))) e s = (datares, s')"
    and "err datares = None"
  shows "P1Parser_parse_line data buf line e s =
           (if next datares = next (ObisIdParser_parse buf line e) \<or> next datares = Some e
            then (until (ParseResult ()) e, s')
            else (fail (ParseResult ()) ''Trailing characters on data line'' (next datares), s'))
         \<and> (err (fst (P1Parser_parse_line data buf line e s)) = None) =
             (next datares = next (ObisIdParser_parse buf line e) \<or> next datares = Some e)"
  using assms by (simp add: P1Parser_parse_line_def Let_def res_eval)

theorem parse_line_trailing_check_witness:
  "(0::nat) \<noteq> 14
   \<and> err (ObisIdParser_parse ''1-3:0.2.9(50)X'' 0 14) = None
   \<and> ParsedData_parse_line example_fields (result (ObisIdParser_parse ''1-3:0.2.9(50)X'' 0 14))
        ''1-3:0.2.9(50)X'' (the (next (ObisIdParser_parse ''1-3:0.2.9(50)X'' 0 14))) 14 Map.empty
      = (until (ParseResult ()) 13, [''other'' \<mapsto> ''50''])
   \<and> P1Parser_parse_line example_fields ''1-3:0.2.9(50)X'' 0 14 Map.empty
      = (fail (ParseResult ()) ''Trailing characters on data line'' (Some 13), [''other'' \<mapsto> ''50''])"
proof -
  have id: "ObisIdParser_parse ''1-3:0.2.9(50)X'' 0 14 = until (ParseResult (ObisId 1 3 0 2 9 255)) 9"
    by (simp add: obis_eval res_eval byte_def)
  have d: "ParsedData_parse_line example_fields (ObisId 1 3 0 2 9 255) ''1-3:0.2.9(50)X'' 9 14 Map.empty
      = (until (ParseResult ()) 13, [''other'' \<mapsto> ''50''])"
    by (simp add: example_fields_def str_eval res_eval ObisId_def Let_def)
  show ?thesis
    using parse_line_trailing_check [of 0 14 "''1-3:0.2.9(50)X''" example_fields Map.empty
        "until (ParseResult ()) 13" "[''other'' \<mapsto> ''50'']"]
    by (simp add: id d res_eval)
qed

text \<open>
  C5. On a non-empty data line whose id parses to an id that no registered field has,
  the dispatch returns a result without error whose cursor is the position it was
  given, and leaves the slots as they were; \<open>P1Parser_parse_line\<close> then succeeds on
  the line, again without touching the slots; and the loop over the data lines goes
  on with the line after the terminator.
\<close>

theorem unmatched_line_skipped:
  assumes "line \<noteq> e"
    and "err (ObisIdParser_parse buf line e) = None"
    and "result (ObisIdParser_parse buf line e) \<notin> fid ` set data"
  shows "ParsedData_parse_line data (result (ObisIdParser_parse buf line e)) buf
           (the (next (ObisIdParser_parse buf line e))) e s
         = (until (ParseResult ()) (the (next (ObisIdParser_parse buf line e))), s)
       \<and> P1Parser_parse_line data buf line e s = (until (ParseResult ()) e, s)
       \<and> (\<forall>e'. e < e' \<and> is_eol (buf ! e) \<longrightarrow>
            data_lines data buf e' line e s = data_lines data buf e' (Suc e) (Suc e) s)"
proof -
  let ?idres = "ObisIdParser_parse buf line e"
  obtain p where p: "next ?idres = Some p"
    using ObisIdParser_next by blast
  have disp: "ParsedData_parse_line data (result ?idres) buf (the (next ?idres)) e s
              = (until (ParseResult ()) (the (next ?idres)), s)"
    using assms(3) by (rule ParsedData_no_match)
  have pl: "P1Parser_parse_line data buf line e s = (until (ParseResult ()) e, s)"
    using assms(1,2) disp p by (simp add: P1Parser_parse_line_def Let_def res_eval)
  have "data_lines data buf e' line e s = data_lines data buf e' (Suc e) (Suc e) s"
    if "e < e'" "is_eol (buf ! e)" for e'
    using that pl by (subst data_lines.simps) (simp add: res_eval)
  with disp pl show ?thesis by blast
qed

theorem unmatched_line_skipped_witness:
  "(7::nat) \<noteq> 20
   \<and> err (ObisIdParser_parse telegram_unknown 7 20) = None
   \<and> result (ObisIdParser_parse telegram_unknown 7 20) \<notin> fid ` set example_fields
   \<and> P1Parser_parse_line example_fields telegram_unknown 7 20 Map.empty
       = (until (ParseResult ()) 20, Map.empty)
   \<and> data_lines example_fields telegram_unknown 37 7 20 Map.empty
       = data_lines example_fields telegram_unknown 37 21 21 Map.empty
   \<and> P1Parser_parse example_fields telegram_unknown 42 Map.empty
       = (until (ParseResult ()) 42, [''p1_version'' \<mapsto> ''50''])"
proof -
  have id: "ObisIdParser_parse telegram_unknown 7 20 = until (ParseResult (ObisId 9 9 9 9 9 255)) 16"
    by (simp add: telegram_unknown_def CR_def LF_def obis_eval res_eval byte_def)
  have nf: "ObisId 9 9 9 9 9 255 \<notin> fid ` set example_fields"
    by (simp add: example_fields_def string_field_def ObisId_def)
  have eol: "is_eol (telegram_unknown ! 20)"
    by (simp add: telegram_unknown_def is_eol_def CR_def LF_def)
  have whole: "P1Parser_parse example_fields telegram_unknown 42 Map.empty
       = (until (ParseResult ()) 42, [''p1_version'' \<mapsto> ''50''])"
    by (simp add: telegram_unknown_def example_fields_def p1_eval crc_eval res_eval obis_eval
        crcp_eval str_eval Let_def)
  show ?thesis
    using unmatched_line_skipped [of 7 20 telegram_unknown example_fields Map.empty] eol whole
    by (simp add: id nf res_eval)
qed

section \<open>ObisIdParser\<close>

lemma obis_scan_stop:
  "\<not> nxt < e \<Longrightarrow> obis_scan buf e nxt part w = Inr (nxt, part, w)"
  by (simp add: obis_scan.simps)

lemma obis_scan_digit:
  "nxt < e \<Longrightarrow> is_digit (buf ! nxt) \<Longrightarrow>
   obis_scan buf e nxt part w =
     (if w ! part > 25 \<or> (w ! part = 25 \<and> digit_of (buf ! nxt) > 5) then Inl (nxt, part, w)
      else obis_scan buf e (Suc nxt) part (w[part := w ! part * 10 + digit_of (buf ! nxt)]))"
  by (subst obis_scan.simps) (simp add: Let_def)


lemma obis_scan_sep:
  "nxt < e \<Longrightarrow> \<not> is_digit (buf ! nxt) \<Longrightarrow>
   obis_scan buf e nxt part w =
     (if sep_ok part (buf ! nxt) then obis_scan buf e (Suc nxt) (Suc part) w
      else Inr (nxt, part, w))"
  by (subst obis_scan.simps) (simp add: Let_def sep_ok_def)

lemma obis_scan_prefix:
  "obis_scan buf p nxt part w = Inr (p, part', w') \<Longrightarrow> p \<le> e \<Longrightarrow>
   obis_scan buf e nxt part w = obis_scan buf e p part' w'"
proof (induction buf p nxt part w rule: obis_scan.induct)
  case (1 buf p nxt part w)
  show ?case
  proof (cases "nxt < p")
    case False
    with "1.prems" show ?thesis by (simp add: obis_scan_stop)
  next
    case True
    with "1.prems" have lt: "nxt < e" by simp
    show ?thesis
    proof (cases "is_digit (buf ! nxt)")
      case dg: True
      show ?thesis
      proof (cases "w ! part > 25 \<or> (w ! part = 25 \<and> digit_of (buf ! nxt) > 5)")
        case True
        with "1.prems"(1) \<open>nxt < p\<close> dg show ?thesis by (simp add: obis_scan_digit)
      next
        case False
        with "1.prems"(1)
        have "obis_scan buf p (Suc nxt) part (w[part := w ! part * 10 + digit_of (buf ! nxt)])
                = Inr (p, part', w')"
          by (auto simp: obis_scan_digit [OF \<open>nxt < p\<close> dg])
        with "1.IH"(1) [OF \<open>nxt < p\<close> refl dg refl False] "1.prems"(2)
        have "obis_scan buf e (Suc nxt) part (w[part := w ! part * 10 + digit_of (buf ! nxt)])
                = obis_scan buf e p part' w'" by simp
        with False show ?thesis by (auto simp: obis_scan_digit [OF lt dg])
      qed
    next
      case nd: False
      show ?thesis
      proof (cases "sep_ok part (buf ! nxt)")
        case False
        with "1.prems"(1) \<open>nxt < p\<close> nd show ?thesis by (simp add: obis_scan_sep)
      next
        case True
        with "1.prems"(1) \<open>nxt < p\<close> nd
        have st: "obis_scan buf p (Suc nxt) (Suc part) w = Inr (p, part', w')"
          by (simp add: obis_scan_sep)
        have "obis_scan buf e (Suc nxt) (Suc part) w = obis_scan buf e p part' w'"
        proof (cases "part = 0 \<and> buf ! nxt = CHR ''-''")
          case True
          from "1.IH"(2) [OF \<open>nxt < p\<close> refl nd True st "1.prems"(2)] show ?thesis .
        next
          case c1: False
          show ?thesis
          proof (cases "part = 1 \<and> buf ! nxt = CHR '':''")
            case True
            from "1.IH"(3) [OF \<open>nxt < p\<close> refl nd c1 True st "1.prems"(2)] show ?thesis .
          next
            case c2: False
            with c1 \<open>sep_ok part (buf ! nxt)\<close>
            have c3: "part > 1 \<and> part < 5 \<and> buf ! nxt = CHR ''.''"
              by (auto simp: sep_ok_def)
            from "1.IH"(4) [OF \<open>nxt < p\<close> refl nd c1 c2 c3 st "1.prems"(2)] show ?thesis .
          qed
        qed
        with True lt nd show ?thesis by (simp add: obis_scan_sep)
      qed
    qed
  qed
qed

lemma unat_digit_of: "is_digit c \<Longrightarrow> unat (digit_of c) = of_char c - 48"
proof -
  assume d: "is_digit c"
  define n where "n = (of_char c :: nat)"
  from d have r: "48 \<le> n" "n \<le> 57"
    by (simp_all add: is_digit_def n_def)
  have w: "unat (of_nat n :: u8) = n"
    using r by (simp add: unat_of_nat)
  have le: "(48::u8) \<le> of_nat n"
    using r by (simp add: word_le_nat_alt w)
  have "digit_of c = (of_nat n :: u8) - 48"
    by (simp add: digit_of_def byte_def of_nat_of_char n_def)
  then have "unat (digit_of c) = unat (of_nat n :: u8) - unat (48 :: u8)"
    using le by (simp add: unat_sub)
  then show ?thesis using w by (simp add: n_def)
qed

lemma overflow_guard:
  fixes x :: u8
  assumes "is_digit c"
  shows "(x > 25 \<or> (x = 25 \<and> digit_of c > 5)) = (255 < unat x * 10 + unat (digit_of c))"
proof -
  from assms have "unat (digit_of c) = of_char c - 48" "(of_char c :: nat) \<le> 57"
    by (simp_all add: unat_digit_of is_digit_def)
  then have d: "unat (digit_of c) \<le> 9" by arith
  have a: "(x > 25) = (25 < unat x)" by (simp add: word_less_nat_alt)
  have b: "(x = 25) = (unat x = 25)" by (simp add: word_unat_eq_iff)
  have c: "(digit_of c > 5) = (5 < unat (digit_of c))" by (simp add: word_less_nat_alt)
  show ?thesis unfolding a b c using d by arith
qed

text \<open>
  C2 (as amended). Let the scan have consumed the characters before position \<open>p\<close> and
  stand in component \<open>part\<close> with the values \<open>w\<close>. If the character at \<open>p\<close> is a
  digit and accumulating it would make the component exceed 255, then
  \<open>ObisIdParser_parse\<close> fails with ``Obis ID has number over 255''; the failure is
  positioned at the start of the id text, and the cursor \<open>next\<close> of the failed result
  is the offending digit.
\<close>

theorem obis_overflow_fails_at_start:
  assumes "obis_scan buf p str 0 (v ObisId_zero) = Inr (p, part, w)"
    and "p < e" and "is_digit (buf ! p)"
    and "255 < unat (w ! part) * 10 + unat (digit_of (buf ! p))"
  shows "err (ObisIdParser_parse buf str e) = Some ''Obis ID has number over 255''
       \<and> ctx (ObisIdParser_parse buf str e) = Some str
       \<and> next (ObisIdParser_parse buf str e) = Some p"
proof -
  from assms(1,2) have "obis_scan buf e str 0 (v ObisId_zero) = obis_scan buf e p part w"
    by (simp add: obis_scan_prefix)
  also have "\<dots> = Inl (p, part, w)"
    using assms(4) overflow_guard [OF assms(3), of "w ! part"]
    by (simp add: obis_scan_digit [OF assms(2,3)])
  finally show ?thesis
    by (simp add: ObisIdParser_parse_def res_eval)
qed

theorem obis_overflow_fails_at_start_witness:
  "obis_scan ''1-256'' 4 0 0 (v ObisId_zero) = Inr (4, 1, [1, 25, 0, 0, 0, 0])
   \<and> (4::nat) < 5 \<and> is_digit (''1-256'' ! 4)
   \<and> 255 < unat ([1, 25, 0, 0, 0, 0 :: u8] ! 1) * 10 + unat (digit_of (''1-256'' ! 4))
   \<and> err (ObisIdParser_parse ''1-256'' 0 5) = Some ''Obis ID has number over 255''
   \<and> ctx (ObisIdParser_parse ''1-256'' 0 5) = Some 0
   \<and> next (ObisIdParser_parse ''1-256'' 0 5) = Some 4"
proof -
  have s: "obis_scan ''1-256'' 4 0 0 (v ObisId_zero) = Inr (4, 1, [1, 25, 0, 0, 0, 0])"
    by (simp add: obis_eval byte_def)
  have d: "is_digit CHR ''6''" "digit_of CHR ''6'' = 6"
    by (simp_all add: is_digit_def digit_of_def byte_def)
  show ?thesis
    using obis_overflow_fails_at_start [of "''1-256''" 4 0 1 "[1, 25, 0, 0, 0, 0]" 5]
    by (simp add: s d)
qed

text \<open>
  C2 (as stated) fails: on \<open>1-256\<close> the offending digit \<open>6\<close> is at offset 4, and the
  failure is not positioned there.
\<close>

theorem obis_overflow_position_counterexample:
  "err (ObisIdParser_parse ''1-256'' 0 5) = Some ''Obis ID has number over 255''
   \<and> ''1-256'' ! 4 = CHR ''6''
   \<and> ctx (ObisIdParser_parse ''1-256'' 0 5) \<noteq> Some 4"
  by (simp add: obis_eval res_eval byte_def)

text \<open>
  C4 (as amended). Let the scan have consumed the characters before position \<open>p\<close> and
  stand in component \<open>part\<close>. A character at \<open>p\<close> that is no digit is consumed, with
  the component index advanced, exactly when it is \<open>-\<close> and \<open>part\<close> is 0, or \<open>:\<close> and
  \<open>part\<close> is 1, or \<open>.\<close> and \<open>part\<close> is 2, 3 or 4. At any other such character, and at
  the end of the buffer, the scan stops without error; if at least one character was
  consumed the parse succeeds with \<open>next\<close> at \<open>p\<close>, the first unconsumed character,
  and if none was it fails with ``OBIS id Empty''.
\<close>

theorem obis_separator_consumed:
  assumes "obis_scan buf p str 0 (v ObisId_zero) = Inr (p, part, w)" and "p \<le> e"
  shows "(p < e \<and> \<not> is_digit (buf ! p) \<longrightarrow>
            (obis_scan buf (Suc p) str 0 (v ObisId_zero) = Inr (Suc p, Suc part, w))
            = (buf ! p = CHR ''-'' \<and> part = 0 \<or> buf ! p = CHR '':'' \<and> part = 1 \<or>
               buf ! p = CHR ''.'' \<and> 2 \<le> part \<and> part \<le> 4))
       \<and> (p = e \<or> \<not> is_digit (buf ! p) \<and>
            \<not> (buf ! p = CHR ''-'' \<and> part = 0 \<or> buf ! p = CHR '':'' \<and> part = 1 \<or>
               buf ! p = CHR ''.'' \<and> 2 \<le> part \<and> part \<le> 4) \<longrightarrow>
            obis_scan buf e str 0 (v ObisId_zero) = Inr (p, part, w)
            \<and> (str < p \<longrightarrow>
                 ObisIdParser_parse buf str e = until (ParseResult \<lparr>v = fill_255 (Suc part) w\<rparr>) p)
            \<and> (p = str \<longrightarrow> err (ObisIdParser_parse buf str e) = Some ''OBIS id Empty''))"
proof -
  let ?z = "v ObisId_zero"
  let ?sep = "buf ! p = CHR ''-'' \<and> part = 0 \<or> buf ! p = CHR '':'' \<and> part = 1 \<or>
               buf ! p = CHR ''.'' \<and> 2 \<le> part \<and> part \<le> 4"
  have sep: "sep_ok part (buf ! p) = ?sep"
    by (auto simp: sep_ok_def)
  have one: "(obis_scan buf (Suc p) str 0 ?z = Inr (Suc p, Suc part, w)) = ?sep"
    if "p < e" "\<not> is_digit (buf ! p)"
  proof -
    have "obis_scan buf (Suc p) str 0 ?z = obis_scan buf (Suc p) p part w"
      using assms(1) by (simp add: obis_scan_prefix)
    also have "\<dots> = (if sep_ok part (buf ! p) then Inr (Suc p, Suc part, w) else Inr (p, part, w))"
      using that(2) by (simp add: obis_scan_sep obis_scan_stop)
    finally show ?thesis by (simp add: sep)
  qed
  have two: "obis_scan buf e str 0 ?z = Inr (p, part, w)"
    if "p = e \<or> \<not> is_digit (buf ! p) \<and> \<not> ?sep"
  proof -
    have "obis_scan buf e str 0 ?z = obis_scan buf e p part w"
      using assms by (simp add: obis_scan_prefix)
    also have "\<dots> = Inr (p, part, w)"
    proof (cases "p < e")
      case True
      with that have "\<not> is_digit (buf ! p)" "\<not> sep_ok part (buf ! p)"
        by (simp_all add: sep)
      with True show ?thesis by (simp add: obis_scan_sep)
    next
      case False
      then show ?thesis by (simp add: obis_scan_stop)
    qed
    finally show ?thesis .
  qed
  show ?thesis
    using one two by (auto simp: ObisIdParser_parse_def res_eval)
qed

theorem obis_separator_consumed_witness:
  "obis_scan ''1-2.3'' 3 0 0 (v ObisId_zero) = Inr (3, 1, [1, 2, 0, 0, 0, 0])
   \<and> (3::nat) \<le> 5 \<and> \<not> is_digit (''1-2.3'' ! 3)
   \<and> obis_scan ''1-2.3'' 4 0 0 (v ObisId_zero) \<noteq> Inr (4, Suc 1, [1, 2, 0, 0, 0, 0])
   \<and> obis_scan ''1-2.3'' 5 0 0 (v ObisId_zero) = Inr (3, 1, [1, 2, 0, 0, 0, 0])
   \<and> ObisIdParser_parse ''1-2.3'' 0 5
       = until (ParseResult \<lparr>v = fill_255 (Suc 1) [1, 2, 0, 0, 0, 0]\<rparr>) 3"
proof -
  have s: "obis_scan ''1-2.3'' 3 0 0 (v ObisId_zero) = Inr (3, 1, [1, 2, 0, 0, 0, 0])"
    by (simp add: obis_eval byte_def)
  have d: "\<not> is_digit CHR ''.''"
    by (simp add: is_digit_def)
  show ?thesis
    using obis_separator_consumed [of "''1-2.3''" 3 0 1 "[1, 2, 0, 0, 0, 0]" 5]
    by (simp add: s d)
qed

text \<open>
  C4 (as stated) fails: in \<open>1-2.3\<close> the scan reaches the \<open>.\<close> at offset 3 in component 1
  and stops there; the \<open>.\<close> is not consumed.
\<close>

theorem obis_dot_after_first_counterexample:
  "obis_scan ''1-2.3'' 3 0 0 (v ObisId_zero) = Inr (3, 1, [1, 2, 0, 0, 0, 0])
   \<and> ''1-2.3'' ! 3 = CHR ''.''
   \<and> obis_scan ''1-2.3'' 5 0 0 (v ObisId_zero) = Inr (3, 1, [1, 2, 0, 0, 0, 0])
   \<and> ObisIdParser_parse ''1-2.3'' 0 5 = until (ParseResult (ObisId 1 2 255 255 255 255)) 3"
  by (simp add: obis_eval res_eval byte_def)

section \<open>P1Parser: framing and checksum\<close>

lemma crc_scan_takeWhile:
  "n \<le> length buf \<Longrightarrow> i \<le> n \<Longrightarrow>
   crc_scan buf n i c =
     (i + length (takeWhile (\<lambda>x. x \<noteq> CHR ''!'') (drop i (take n buf))),
      foldl crc16_update c (map byte (takeWhile (\<lambda>x. x \<noteq> CHR ''!'') (drop i (take n buf)))))"
proof (induction buf n i c rule: crc_scan.induct)
  case (1 buf n i c)
  show ?case
  proof (cases "i < n")
    case True
    with "1.prems" have d: "drop i (take n buf) = buf ! i # drop (Suc i) (take n buf)"
      by (simp add: drop_take_nth)
    show ?thesis
    proof (cases "buf ! i = CHR ''!''")
      case True
      with d show ?thesis by (simp add: crc_scan.simps)
    next
      case False
      with True "1.IH" "1.prems" d show ?thesis
        by (subst crc_scan.simps) simp
    qed
  next
    case False
    with "1.prems" show ?thesis by (simp add: crc_scan.simps)
  qed
qed

lemma first_bang_props:
  assumes "n \<le> length buf" "0 < n"
  shows "0 < first_bang buf n" "first_bang buf n \<le> n"
    "first_bang buf n < n \<Longrightarrow> buf ! first_bang buf n = CHR ''!''"
    "take (first_bang buf n) buf = buf ! 0 # takeWhile (\<lambda>c. c \<noteq> CHR ''!'') (drop 1 (take n buf))"
proof -
  let ?P = "\<lambda>c. c \<noteq> CHR ''!''"
  let ?xs = "drop 1 (take n buf)"
  let ?tw = "takeWhile ?P ?xs"
  have lx: "length ?xs = n - 1" using assms by simp
  have ltw: "length ?tw \<le> n - 1" using length_takeWhile_le [of ?P ?xs] lx by simp
  show "0 < first_bang buf n" by (simp add: first_bang_def)
  show le: "first_bang buf n \<le> n" using ltw assms by (simp add: first_bang_def)
  show "buf ! first_bang buf n = CHR ''!''" if "first_bang buf n < n"
  proof -
    from that have l: "length ?tw < length ?xs" using lx by (simp add: first_bang_def)
    then have "\<not> ?P (?xs ! length ?tw)" by (rule nth_length_takeWhile)
    moreover have "?xs ! length ?tw = buf ! first_bang buf n"
      using l lx assms by (simp add: first_bang_def)
    ultimately show ?thesis by simp
  qed
  have "?tw = take (length ?tw) ?xs" by (simp add: takeWhile_eq_take [symmetric])
  also have "\<dots> = take (length ?tw) (drop 1 buf)"
    using ltw by (simp add: drop_take min_def)
  finally have tw: "?tw = take (length ?tw) (drop 1 buf)" .
  from assms obtain x xs where b: "buf = x # xs" by (cases buf) auto
  have "take (Suc (length ?tw)) buf = buf ! 0 # take (length ?tw) (drop 1 buf)"
    by (simp add: b)
  with tw show "take (first_bang buf n) buf = buf ! 0 # ?tw"
    by (simp add: first_bang_def)
qed

lemma P1Parser_parse_unfold:
  assumes "n \<le> length buf" "0 < n" "buf ! 0 = CHR ''/''"
  shows "P1Parser_parse data buf n s =
     (let k = first_bang buf n in
      if n \<le> k then (fail (ParseResult ()) ''No checksum found'' None, s)
      else
        (let check_res = CrcParser_parse buf (Suc k) n in
         if err check_res \<noteq> None then (to_void check_res, s)
         else if result check_res \<noteq> crc16_of (take (Suc k) buf)
           then (fail (ParseResult ()) ''Checksum mismatch'' (Some k), s)
         else (let (res', s') = parse_data data buf 1 k s in (res'\<lparr>next := next check_res\<rparr>, s'))))"
proof -
  let ?tw = "takeWhile (\<lambda>c. c \<noteq> CHR ''!'') (drop 1 (take n buf))"
  let ?k = "first_bang buf n"
  have sc: "crc_scan buf n 1 (crc16_update 0 (byte (buf ! 0))) =
          (?k, foldl crc16_update (crc16_update 0 (byte (buf ! 0))) (map byte ?tw))"
    using assms by (simp add: crc_scan_takeWhile first_bang_def)
  have crc: "crc16_update (foldl crc16_update (crc16_update 0 (byte (buf ! 0))) (map byte ?tw))
               (byte (buf ! ?k)) = crc16_of (take (Suc ?k) buf)" if "?k < n"
  proof -
    from that assms have "take (Suc ?k) buf = take ?k buf @ [buf ! ?k]"
      by (simp add: take_Suc_conv_app_nth)
    also have "\<dots> = (buf ! 0 # ?tw) @ [buf ! ?k]"
      using first_bang_props(4) [OF assms(1,2)] by simp
    finally show ?thesis by (simp add: crc16_of_def)
  qed
  show ?thesis
  proof (cases "n \<le> ?k")
    case True
    with assms sc show ?thesis by (simp add: P1Parser_parse_def Let_def)
  next
    case False
    then have "?k < n" by simp
    from crc [OF this] False assms sc show ?thesis
      by (simp add: P1Parser_parse_def Let_def)
  qed
qed

lemma id_line_no_eol:
  "(\<forall>i. le \<le> i \<and> i < e \<longrightarrow> \<not> is_eol (buf ! i)) \<Longrightarrow>
   id_line data buf e ls le s = (Inr (ls, max le e), s)"
proof (induction data buf e ls le s rule: id_line.induct)
  case (1 data buf e ls le s)
  show ?case
  proof (cases "le < e")
    case True
    with "1.prems" have ne: "\<not> is_eol (buf ! le)" by simp
    from "1.prems" have "\<forall>i. Suc le \<le> i \<and> i < e \<longrightarrow> \<not> is_eol (buf ! i)" by simp
    with "1.IH" True ne have "id_line data buf e ls (Suc le) s = (Inr (ls, max (Suc le) e), s)"
      by simp
    with True ne show ?thesis
      by (subst id_line.simps) (simp add: max_def)
  next
    case False
    then show ?thesis by (simp add: id_line.simps max_def)
  qed
qed

lemma data_lines_no_eol:
  "(\<forall>i. le \<le> i \<and> i < e \<longrightarrow> \<not> is_eol (buf ! i)) \<Longrightarrow>
   data_lines data buf e ls le s =
     (if max le e \<noteq> ls then fail (ParseResult ()) ''Last dataline not CRLF terminated'' (Some ls)
      else ParseResult (), s)"
proof (induction data buf e ls le s rule: data_lines.induct)
  case (1 data buf e ls le s)
  show ?case
  proof (cases "le < e")
    case True
    with "1.prems" have ne: "\<not> is_eol (buf ! le)" by simp
    from "1.prems" have "\<forall>i. Suc le \<le> i \<and> i < e \<longrightarrow> \<not> is_eol (buf ! i)" by simp
    with "1.IH"(2) True ne have "data_lines data buf e ls (Suc le) s =
       (if max (Suc le) e \<noteq> ls then fail (ParseResult ()) ''Last dataline not CRLF terminated'' (Some ls)
        else ParseResult (), s)"
      by simp
    with True ne show ?thesis
      by (subst data_lines.simps) (simp add: max_def)
  next
    case False
    then show ?thesis by (simp add: data_lines.simps max_def)
  qed
qed

lemma parse_data_no_eol:
  assumes "str \<le> e" "\<forall>i. str \<le> i \<and> i < e \<longrightarrow> \<not> is_eol (buf ! i)"
  shows "parse_data data buf str e s =
     (if str = e then ParseResult ()
      else fail (ParseResult ()) ''Last dataline not CRLF terminated'' (Some str), s)"
proof -
  have "\<forall>i. max str e \<le> i \<and> i < e \<longrightarrow> \<not> is_eol (buf ! i)"
    using assms(1) by (auto simp: max_def)
  then have "data_lines data buf e str (max str e) s =
     (if max (max str e) e \<noteq> str
      then fail (ParseResult ()) ''Last dataline not CRLF terminated'' (Some str)
      else ParseResult (), s)"
    by (rule data_lines_no_eol)
  with assms show ?thesis
    by (simp add: parse_data_def id_line_no_eol max_def)
qed

lemma crc16_slash_bang: "crc16_of ''/!'' = 0x28DC"
  by (simp add: crc16_of_def crc_eval)

lemma P1Parser_parse_err_cases:
  assumes "n \<le> length buf" "0 < n" "buf ! 0 = CHR ''/''"
    and "n \<le> first_bang buf n
         \<or> err (CrcParser_parse buf (Suc (first_bang buf n)) n) \<noteq> None
         \<or> result (CrcParser_parse buf (Suc (first_bang buf n)) n)
             \<noteq> crc16_of (take (Suc (first_bang buf n)) buf)"
  shows "snd (P1Parser_parse data buf n s) = s"
    and "err (fst (P1Parser_parse data buf n s)) \<noteq> None"
    and "fst (P1Parser_parse data buf n s) = fst (P1Parser_parse data' buf n s)"
proof -
  note unf = P1Parser_parse_unfold [OF assms(1,2,3)]
  consider (a) "n \<le> first_bang buf n"
    | (b) "\<not> n \<le> first_bang buf n" "err (CrcParser_parse buf (Suc (first_bang buf n)) n) \<noteq> None"
    | (c) "\<not> n \<le> first_bang buf n" "err (CrcParser_parse buf (Suc (first_bang buf n)) n) = None"
          "result (CrcParser_parse buf (Suc (first_bang buf n)) n)
             \<noteq> crc16_of (take (Suc (first_bang buf n)) buf)"
    using assms(4) by blast
  then have "snd (P1Parser_parse data buf n s) = s
     \<and> err (fst (P1Parser_parse data buf n s)) \<noteq> None
     \<and> fst (P1Parser_parse data buf n s) = fst (P1Parser_parse data' buf n s)"
  proof cases
    case a
    then show ?thesis by (simp add: unf Let_def res_eval)
  next
    case b
    then show ?thesis by (simp add: unf Let_def res_eval)
  next
    case c
    then show ?thesis by (simp add: unf Let_def res_eval)
  qed
  then show "snd (P1Parser_parse data buf n s) = s"
    and "err (fst (P1Parser_parse data buf n s)) \<noteq> None"
    and "fst (P1Parser_parse data buf n s) = fst (P1Parser_parse data' buf n s)"
    by blast+
qed

text \<open>
  C1. Let \<open>k\<close> be the offset of the first \<open>!\<close> after the leading \<open>/\<close>. The value that
  \<open>P1Parser_parse\<close> compares the decoded checksum with is the CRC16, seeded at 0, of
  the bytes at offsets 0 to \<open>k\<close>, both included. If the four bytes after the \<open>!\<close>
  decode to a different value, the parse fails with ``Checksum mismatch'', positioned
  at \<open>k\<close>, and the slots are untouched; and a parse that returns without error has
  found the \<open>/\<close> and the \<open>!\<close> and decoded a checksum equal to that CRC16.
\<close>

theorem parse_checksum_verified:
  assumes "n \<le> length buf"
  shows "(0 < n \<and> buf ! 0 = CHR ''/'' \<and> first_bang buf n < n
          \<and> err (CrcParser_parse buf (Suc (first_bang buf n)) n) = None
          \<and> result (CrcParser_parse buf (Suc (first_bang buf n)) n)
              \<noteq> crc16_of (take (Suc (first_bang buf n)) buf)
          \<longrightarrow> P1Parser_parse data buf n s
              = (fail (ParseResult ()) ''Checksum mismatch'' (Some (first_bang buf n)), s))
       \<and> (err (fst (P1Parser_parse data buf n s)) = None
          \<longrightarrow> 0 < n \<and> buf ! 0 = CHR ''/'' \<and> first_bang buf n < n
              \<and> buf ! first_bang buf n = CHR ''!''
              \<and> err (CrcParser_parse buf (Suc (first_bang buf n)) n) = None
              \<and> result (CrcParser_parse buf (Suc (first_bang buf n)) n)
                  = crc16_of (take (Suc (first_bang buf n)) buf))"
proof (cases "0 < n \<and> buf ! 0 = CHR ''/''")
  case False
  then have "err (fst (P1Parser_parse data buf n s)) \<noteq> None"
    by (auto simp: P1Parser_parse_def res_eval)
  with False show ?thesis by blast
next
  case True
  then have n: "0 < n" and sl: "buf ! 0 = CHR ''/''" by simp_all
  note unf = P1Parser_parse_unfold [OF assms n sl, of data s]
  note bang = first_bang_props(3) [OF assms n]
  note errc = P1Parser_parse_err_cases(2) [OF assms n sl, of data s]
  have mis: "P1Parser_parse data buf n s
              = (fail (ParseResult ()) ''Checksum mismatch'' (Some (first_bang buf n)), s)"
    if "first_bang buf n < n" "err (CrcParser_parse buf (Suc (first_bang buf n)) n) = None"
       "result (CrcParser_parse buf (Suc (first_bang buf n)) n)
              \<noteq> crc16_of (take (Suc (first_bang buf n)) buf)"
    using that by (simp add: unf Let_def)
  have ok: "first_bang buf n < n \<and> buf ! first_bang buf n = CHR ''!''
              \<and> err (CrcParser_parse buf (Suc (first_bang buf n)) n) = None
              \<and> result (CrcParser_parse buf (Suc (first_bang buf n)) n)
                  = crc16_of (take (Suc (first_bang buf n)) buf)"
    if "err (fst (P1Parser_parse data buf n s)) = None"
  proof -
    from that errc have
      "\<not> (n \<le> first_bang buf n
         \<or> err (CrcParser_parse buf (Suc (first_bang buf n)) n) \<noteq> None
         \<or> result (CrcParser_parse buf (Suc (first_bang buf n)) n)
             \<noteq> crc16_of (take (Suc (first_bang buf n)) buf))"
      by blast
    then show ?thesis using bang by auto
  qed
  from mis ok n sl show ?thesis by blast
qed

theorem parse_checksum_verified_witness:
  "(6::nat) \<le> length ''/!28DD''
   \<and> first_bang ''/!28DD'' 6 = 1
   \<and> result (CrcParser_parse ''/!28DD'' 2 6) = 0x28DD
   \<and> crc16_of (take 2 ''/!28DD'') = 0x28DC
   \<and> P1Parser_parse example_fields ''/!28DD'' 6 Map.empty
       = (fail (ParseResult ()) ''Checksum mismatch'' (Some 1), Map.empty)"
proof -
  have len: "(6::nat) \<le> length ''/!28DD''" by simp
  have fb: "first_bang ''/!28DD'' 6 = 1" by (simp add: first_bang_def)
  have chk: "CrcParser_parse ''/!28DD'' 2 6 = \<lparr>result = 0x28DD, next = Some 6, err = None, ctx = None\<rparr>"
    by (simp add: crcp_eval res_eval)
  have two: "Suc 1 = 2" by simp
  have crc: "crc16_of (take 2 ''/!28DD'') = 0x28DC"
    by (simp add: crc16_slash_bang)
  have hyp: "0 < (6::nat) \<and> ''/!28DD'' ! 0 = CHR ''/'' \<and> first_bang ''/!28DD'' 6 < 6
          \<and> err (CrcParser_parse ''/!28DD'' (Suc (first_bang ''/!28DD'' 6)) 6) = None
          \<and> result (CrcParser_parse ''/!28DD'' (Suc (first_bang ''/!28DD'' 6)) 6)
              \<noteq> crc16_of (take (Suc (first_bang ''/!28DD'' 6)) ''/!28DD'')"
    unfolding fb two chk crc by simp
  have "P1Parser_parse example_fields ''/!28DD'' 6 Map.empty
      = (fail (ParseResult ()) ''Checksum mismatch'' (Some (first_bang ''/!28DD'' 6)), Map.empty)"
    by (rule parse_checksum_verified [OF len, THEN conjunct1, THEN mp, OF hyp])
  then have "P1Parser_parse example_fields ''/!28DD'' 6 Map.empty
      = (fail (ParseResult ()) ''Checksum mismatch'' (Some 1), Map.empty)"
    unfolding fb .
  moreover have "result (CrcParser_parse ''/!28DD'' 2 6) = 0x28DD"
    unfolding chk by simp
  ultimately show ?thesis using len fb crc by (intro conjI)
qed

lemma P1Parser_parse_no_slash:
  "n = 0 \<or> buf ! 0 \<noteq> CHR ''/'' \<Longrightarrow>
   P1Parser_parse data buf n s = (fail (ParseResult ()) ''Data should start with /'' (Some 0), s)"
  by (simp add: P1Parser_parse_def Let_def)

text \<open>
  C10. If the buffer is empty or does not start with \<open>/\<close>, or holds no \<open>!\<close>, or the
  checksum after the \<open>!\<close> does not decode, or it decodes to a value other than the
  CRC16 of the bytes up to the \<open>!\<close>, then \<open>P1Parser_parse\<close> fails and returns the
  slots exactly as it received them; its result is the one it gives for the empty
  field list, so no field's decode routine has had a part in it.
\<close>

theorem framing_failure_leaves_registry:
  assumes "n \<le> length buf"
    and "n = 0 \<or> buf ! 0 \<noteq> CHR ''/'' \<or> n \<le> first_bang buf n
         \<or> err (CrcParser_parse buf (Suc (first_bang buf n)) n) \<noteq> None
         \<or> result (CrcParser_parse buf (Suc (first_bang buf n)) n)
             \<noteq> crc16_of (take (Suc (first_bang buf n)) buf)"
  shows "snd (P1Parser_parse data buf n s) = s
       \<and> err (fst (P1Parser_parse data buf n s)) \<noteq> None
       \<and> fst (P1Parser_parse data buf n s) = fst (P1Parser_parse [] buf n s)"
proof (cases "0 < n \<and> buf ! 0 = CHR ''/''")
  case False
  then have d: "n = 0 \<or> buf ! 0 \<noteq> CHR ''/''" by simp
  show ?thesis by (simp add: P1Parser_parse_no_slash [OF d] res_eval)
next
  case True
  then have n: "0 < n" and sl: "buf ! 0 = CHR ''/''" by simp_all
  from assms(2) True have
    "n \<le> first_bang buf n
         \<or> err (CrcParser_parse buf (Suc (first_bang buf n)) n) \<noteq> None
         \<or> result (CrcParser_parse buf (Suc (first_bang buf n)) n)
             \<noteq> crc16_of (take (Suc (first_bang buf n)) buf)" by simp
  note e = P1Parser_parse_err_cases [OF assms(1) n sl this]
  show ?thesis
    by (intro conjI) (rule e(1), rule e(2), rule e(3))
qed

theorem framing_failure_leaves_registry_witness:
  "(6::nat) \<le> length ''/!28DD''
   \<and> result (CrcParser_parse ''/!28DD'' (Suc (first_bang ''/!28DD'' 6)) 6)
       \<noteq> crc16_of (take (Suc (first_bang ''/!28DD'' 6)) ''/!28DD'')
   \<and> snd (P1Parser_parse example_fields ''/!28DD'' 6 [''p1_version'' \<mapsto> ''42''])
       = [''p1_version'' \<mapsto> ''42'']
   \<and> err (fst (P1Parser_parse example_fields ''/!28DD'' 6 [''p1_version'' \<mapsto> ''42''])) \<noteq> None"
proof -
  have len: "(6::nat) \<le> length ''/!28DD''" by simp
  have fb: "first_bang ''/!28DD'' 6 = 1" by (simp add: first_bang_def)
  have chk: "CrcParser_parse ''/!28DD'' 2 6 = \<lparr>result = 0x28DD, next = Some 6, err = None, ctx = None\<rparr>"
    by (simp add: crcp_eval res_eval)
  have two: "Suc 1 = 2" by simp
  have crc: "crc16_of (take 2 ''/!28DD'') = 0x28DC"
    by (simp add: crc16_slash_bang)
  have ne: "result (CrcParser_parse ''/!28DD'' (Suc (first_bang ''/!28DD'' 6)) 6)
       \<noteq> crc16_of (take (Suc (first_bang ''/!28DD'' 6)) ''/!28DD'')"
    unfolding fb two chk crc by simp
  then have hyp: "(6::nat) = 0 \<or> ''/!28DD'' ! 0 \<noteq> CHR ''/'' \<or> 6 \<le> first_bang ''/!28DD'' 6
         \<or> err (CrcParser_parse ''/!28DD'' (Suc (first_bang ''/!28DD'' 6)) 6) \<noteq> None
         \<or> result (CrcParser_parse ''/!28DD'' (Suc (first_bang ''/!28DD'' 6)) 6)
             \<noteq> crc16_of (take (Suc (first_bang ''/!28DD'' 6)) ''/!28DD'')"
    by (intro disjI2)
  note t = framing_failure_leaves_registry [OF len hyp, of example_fields "[''p1_version'' \<mapsto> ''42'']"]
  from t have a: "snd (P1Parser_parse example_fields ''/!28DD'' 6 [''p1_version'' \<mapsto> ''42''])
       = [''p1_version'' \<mapsto> ''42'']" by (rule conjunct1)
  from t have b: "err (fst (P1Parser_parse example_fields ''/!28DD'' 6 [''p1_version'' \<mapsto> ''42''])) \<noteq> None"
    by (rule conjunct2 [THEN conjunct1])
  from len ne a b show ?thesis by (intro conjI)
qed

text \<open>
  C9. A buffer that starts with \<open>/!\<close> followed by a checksum that decodes to the CRC16
  of \<open>/!\<close> parses without error, with the cursor after the checksum and the slots
  untouched, although it has no identification line. In general, on a payload
  without a line terminator \<open>parse_data\<close> never reports ``Invalid identification
  string'': that check is made only where a terminator is found.
\<close>

theorem empty_payload_parses:
  assumes "take 2 buf = ''/!''"
    and "err (CrcParser_parse buf 2 n) = None"
    and "result (CrcParser_parse buf 2 n) = crc16_of ''/!''"
  shows "P1Parser_parse data buf n s = (until (ParseResult ()) 6, s)
       \<and> (\<forall>str e. str \<le> e \<and> (\<forall>i. str \<le> i \<and> i < e \<longrightarrow> \<not> is_eol (buf ! i)) \<longrightarrow>
            err (fst (parse_data data buf str e s)) \<noteq> Some ''Invalid identification string'')"
proof -
  from assms(1) have b: "buf ! 0 = CHR ''/''" "buf ! 1 = CHR ''!''"
    by (cases buf; cases "tl buf"; simp)+
  from assms(2) have n: "6 \<le> n"
    by (auto simp: CrcParser_parse_def CRC_LEN_def res_eval Let_def split: if_splits)
  from assms(2) have nx: "next (CrcParser_parse buf 2 n) = Some 6"
    by (auto simp: CrcParser_parse_def CRC_LEN_def res_eval Let_def split: if_splits prod.splits)
  have sc: "crc_scan buf n 1 c = (1, c)" for c
    using b by (simp add: crc_scan.simps)
  have pd: "parse_data data buf 1 1 s = (ParseResult (), s)"
    by (simp add: parse_data_no_eol)
  have crc: "crc16_update (crc16_update 0 (byte CHR ''/'')) (byte CHR ''!'') = crc16_of ''/!''"
    by (simp add: crc16_of_def)
  have chk: "err (CrcParser_parse buf (Suc (Suc 0)) n) = None"
    "result (CrcParser_parse buf (Suc (Suc 0)) n) = crc16_of ''/!''"
    "next (CrcParser_parse buf (Suc (Suc 0)) n) = Some 6"
    using assms(2,3) nx by (simp_all add: numeral_2_eq_2)
  have "P1Parser_parse data buf n s = (until (ParseResult ()) 6, s)"
    using n b sc pd chk crc
    by (simp add: P1Parser_parse_def Let_def res_eval)
  moreover have "err (fst (parse_data data buf str e s)) \<noteq> Some ''Invalid identification string''"
    if "str \<le> e" "\<forall>i. str \<le> i \<and> i < e \<longrightarrow> \<not> is_eol (buf ! i)" for str e
    using that by (simp add: parse_data_no_eol res_eval)
  ultimately show ?thesis by blast
qed

theorem empty_payload_parses_witness:
  "take 2 ''/!28DC'' = ''/!''
   \<and> err (CrcParser_parse ''/!28DC'' 2 6) = None
   \<and> result (CrcParser_parse ''/!28DC'' 2 6) = crc16_of ''/!''
   \<and> P1Parser_parse example_fields ''/!28DC'' 6 Map.empty = (until (ParseResult ()) 6, Map.empty)"
proof -
  have chk: "CrcParser_parse ''/!28DC'' 2 6 = \<lparr>result = 0x28DC, next = Some 6, err = None, ctx = None\<rparr>"
    by (simp add: crcp_eval res_eval)
  show ?thesis
    using empty_payload_parses [of "''/!28DC''" 6 example_fields Map.empty]
    by (simp add: chk crc16_slash_bang)
qed

section \<open>P1Parser: what a failed parse leaves in the slots\<close>

lemma ParsedData_parse_line_keeps:
  assumes "\<forall>T\<in>set data. \<forall>buf str e s. R s (snd (fparse T buf str e s))" and "\<forall>s. R s s"
  shows "R s (snd (ParsedData_parse_line data oid buf str e s))"
  using assms by (induction data) auto

lemma P1Parser_parse_line_keeps:
  assumes "\<forall>T\<in>set data. \<forall>buf str e s. R s (snd (fparse T buf str e s))" and "\<forall>s. R s s"
  shows "R s (snd (P1Parser_parse_line data buf line e s))"
proof -
  let ?idres = "ObisIdParser_parse buf line e"
  obtain datares s' where
    d: "ParsedData_parse_line data (result ?idres) buf (the (next ?idres)) e s = (datares, s')"
    by (cases "ParsedData_parse_line data (result ?idres) buf (the (next ?idres)) e s")
  from ParsedData_parse_line_keeps [OF assms, of s "result ?idres" buf "the (next ?idres)" e] d
  have "R s s'" by simp
  with assms(2) d show ?thesis
    by (simp add: P1Parser_parse_line_def Let_def)
qed

lemma id_line_keeps:
  "\<forall>T\<in>set data. \<forall>buf str e s. R s (snd (fparse T buf str e s)) \<Longrightarrow> \<forall>s. R s s \<Longrightarrow>
   R s (snd (id_line data buf e ls le s))"
proof (induction data buf e ls le s rule: id_line.induct)
  case (1 data buf e ls le s)
  obtain tmp s' where
    d: "ParsedData_parse_line data (ObisId 255 255 255 255 255 255) buf ls le s = (tmp, s')"
    by (cases "ParsedData_parse_line data (ObisId 255 255 255 255 255 255) buf ls le s")
  from ParsedData_parse_line_keeps [OF "1.prems", of s "ObisId 255 255 255 255 255 255" buf ls le] d
  have rs: "R s s'" by simp
  show ?case
  proof (cases "le < e \<and> \<not> is_eol (buf ! le)")
    case True
    with "1.IH" "1.prems" show ?thesis by (subst id_line.simps) simp
  next
    case False
    with d rs "1.prems"(2) show ?thesis
      by (subst id_line.simps) (simp add: Let_def)
  qed
qed

lemma data_lines_keeps:
  "\<forall>T\<in>set data. \<forall>buf str e s. R s (snd (fparse T buf str e s)) \<Longrightarrow> \<forall>s. R s s \<Longrightarrow>
   \<forall>s t u. R s t \<and> R t u \<longrightarrow> R s u \<Longrightarrow>
   R s (snd (data_lines data buf e ls le s))"
proof (induction data buf e ls le s rule: data_lines.induct)
  case (1 data buf e ls le s)
  have p: "R s (snd (P1Parser_parse_line data buf ls le s))"
    using "1.prems"(1,2) by (rule P1Parser_parse_line_keeps)
  show ?case
  proof (cases "le < e")
    case False
    with "1.prems"(2) show ?thesis by (subst data_lines.simps) simp
  next
    case lt: True
    show ?thesis
    proof (cases "is_eol (buf ! le)")
      case False
      from "1.IH"(2) [OF lt False "1.prems"]
      have "R s (snd (data_lines data buf e ls (Suc le) s))" .
      with lt False show ?thesis by (subst data_lines.simps) simp
    next
      case True
      obtain tmp s' where pl: "P1Parser_parse_line data buf ls le s = (tmp, s')"
        by (cases "P1Parser_parse_line data buf ls le s")
      with p have rs: "R s s'" by simp
      show ?thesis
      proof (cases "err tmp \<noteq> None")
        case True
        with lt \<open>is_eol (buf ! le)\<close> pl rs show ?thesis
          by (subst data_lines.simps) simp
      next
        case False
        from "1.IH"(1) [OF lt \<open>is_eol (buf ! le)\<close> pl [symmetric] refl False "1.prems"]
        have "R s' (snd (data_lines data buf e (le + 1) (Suc le) s'))" .
        with rs "1.prems"(3) have "R s (snd (data_lines data buf e (le + 1) (Suc le) s'))" by blast
        with lt \<open>is_eol (buf ! le)\<close> pl False show ?thesis
          by (subst data_lines.simps) simp
      qed
    qed
  qed
qed

lemma parse_data_keeps:
  assumes "\<forall>T\<in>set data. \<forall>buf str e s. R s (snd (fparse T buf str e s))" and "\<forall>s. R s s"
    and "\<forall>s t u. R s t \<and> R t u \<longrightarrow> R s u"
  shows "R s (snd (parse_data data buf str e s))"
proof -
  obtain x s' where il: "id_line data buf e str str s = (x, s')"
    by (cases "id_line data buf e str str s")
  with id_line_keeps [OF assms(1,2), of s buf e str str] have rs: "R s s'" by simp
  show ?thesis
  proof (cases x)
    case (Inl r)
    with il rs show ?thesis by (simp add: parse_data_def)
  next
    case (Inr p)
    obtain a b where p: "p = (a, b)" by (cases p)
    from data_lines_keeps [OF assms, of s' buf e a b] rs assms(3)
    have "R s (snd (data_lines data buf e a b s'))" by blast
    with il Inr p show ?thesis by (simp add: parse_data_def)
  qed
qed

lemma P1Parser_parse_keeps:
  assumes "\<forall>T\<in>set data. \<forall>buf str e s. R s (snd (fparse T buf str e s))"
    and "\<forall>s. R s s"
    and "\<forall>s t u. R s t \<and> R t u \<longrightarrow> R s u"
  shows "R s (snd (P1Parser_parse data buf n s))"
proof (cases "n = 0 \<or> buf ! 0 \<noteq> CHR ''/''")
  case True
  with assms(2) show ?thesis by (simp add: P1Parser_parse_def Let_def)
next
  case False
  obtain de c0 where sc: "crc_scan buf n 1 (crc16_update 0 (byte CHR ''/'')) = (de, c0)"
    by (cases "crc_scan buf n 1 (crc16_update 0 (byte CHR ''/''))")
  obtain r s' where pd: "parse_data data buf 1 de s = (r, s')"
    by (cases "parse_data data buf 1 de s")
  from parse_data_keeps [OF assms, of s buf 1 de] pd have "R s s'" by simp
  with False sc pd assms(2) show ?thesis
    by (simp add: P1Parser_parse_def Let_def)
qed











end
